theory Spec2Isabelle
  imports Main
begin

section \<open>HSRP validation: the parser and the validator of \<open>Hssrp_Validation.py\<close>\<close>

text \<open>
  The development embeds the two static methods of class \<open>HSRPValidator\<close>:
  \<open>parse_show_standby_brief\<close> (text of the command output to a dictionary from group
  to state) and \<open>validate_hsrp\<close> (that dictionary, a list of expected conditions and a
  device name to a dictionary of verdicts).

  Text is a \<open>string\<close>: a list of characters, each standing for the Python code point of
  the same number (0 to 255). The character classes of the regular expression, the line
  boundaries of \<open>str.splitlines\<close> and the case mapping of \<open>str.lower\<close> are the ones
  Python has on that range.
\<close>

subsection \<open>Character classes\<close>

text \<open>\<open>\s\<close>: the code points for which \<open>str.isspace\<close> holds.\<close>

definition is_space :: "char \<Rightarrow> bool" where
  "is_space c = (of_char c \<in> {9, 10, 11, 12, 13, 28, 29, 30, 31, 32, 133, 160 :: nat})"

text \<open>\<open>\d\<close>: the decimal digits.\<close>

definition is_digit :: "char \<Rightarrow> bool" where
  "is_digit c = (48 \<le> (of_char c :: nat) \<and> (of_char c :: nat) \<le> 57)"

text \<open>The line boundaries at which \<open>str.splitlines\<close> cuts.\<close>

definition is_linebreak :: "char \<Rightarrow> bool" where
  "is_linebreak c = (of_char c \<in> {10, 11, 12, 13, 28, 29, 30, 133 :: nat})"

text \<open>\<open>str.lower\<close>, one character at a time: the upper-case letters move up by 32.\<close>

definition lower_char :: "char \<Rightarrow> char" where
  "lower_char c = (let n = (of_char c :: nat) in
     if (65 \<le> n \<and> n \<le> 90) \<or> (192 \<le> n \<and> n \<le> 222 \<and> n \<noteq> 215)
     then char_of (n + 32) else c)"

definition lower :: "string \<Rightarrow> string" where
  "lower s = map lower_char s"

subsection \<open>\<open>str.splitlines\<close>\<close>

text \<open>
  A line ends at a line boundary; carriage return followed by line feed is one boundary.
  The boundaries are not part of the lines, and text that ends with a boundary has no
  empty last line.
\<close>

fun splitlines :: "string \<Rightarrow> string list" where
  "splitlines [] = []"
| "splitlines (c # cs) =
     (if is_linebreak c then
        (case cs of
           d # ds \<Rightarrow> if c = CHR 0x0D \<and> d = CHR 0x0A then [] # splitlines ds
                     else [] # splitlines cs
         | [] \<Rightarrow> [[]])
      else
        (case splitlines cs of
           [] \<Rightarrow> [[c]]
         | l # ls \<Rightarrow> (c # l) # ls))"

subsection \<open>The regular expression and \<open>re.match\<close>\<close>

text \<open>
  The pattern is a sequence of items, each a character class repeated once or more,
  greedily, inside a capturing group or not.
\<close>

datatype cls = NonSpace | Space | Digit

fun in_cls :: "cls \<Rightarrow> char \<Rightarrow> bool" where
  "in_cls NonSpace c = (\<not> is_space c)"
| "in_cls Space c = is_space c"
| "in_cls Digit c = is_digit c"

type_synonym item = "cls \<times> bool"

text \<open>
  The backtracking of one item: the repetition first takes \<open>n\<close> characters, the longest
  run, and the rest of the pattern \<open>k\<close> is tried on what follows; when that fails the
  repetition gives one character back, down to a single character.
\<close>

fun try_lens :: "(string \<Rightarrow> string list option) \<Rightarrow> bool \<Rightarrow> string \<Rightarrow> nat
    \<Rightarrow> string list option" where
  "try_lens k cap s 0 = None"
| "try_lens k cap s (Suc n) =
     (case k (drop (Suc n) s) of
        Some gs \<Rightarrow> Some (if cap then take (Suc n) s # gs else gs)
      | None \<Rightarrow> try_lens k cap s n)"

text \<open>
  \<open>re.match\<close>: the pattern is matched at the start of the string and need not reach its
  end. The result is the list of the captured groups, \<open>None\<close> when there is no match.
\<close>

primrec re_match :: "item list \<Rightarrow> string \<Rightarrow> string list option" where
  "re_match [] = (\<lambda>s. Some [])"
| "re_match (i # p) =
     (\<lambda>s. try_lens (re_match p) (snd i) s (length (takeWhile (in_cls (fst i)) s)))"

text \<open>\<open>(\S+)\s+(\S+)\s+(\d+)\s+(\S+)\s+(\S+)\s+(\S+)\s+(\S+)\<close>\<close>

definition pattern :: "item list" where
  "pattern =
     [(NonSpace, True), (Space, False), (NonSpace, True), (Space, False),
      (Digit, True), (Space, False), (NonSpace, True), (Space, False),
      (NonSpace, True), (Space, False), (NonSpace, True), (Space, False),
      (NonSpace, True)]"

text \<open>\<open>match.group(n)\<close>, for \<open>n\<close> from 1.\<close>

definition match_group :: "string list \<Rightarrow> nat \<Rightarrow> string" where
  "match_group gs n = gs ! (n - 1)"

subsection \<open>\<open>parse_show_standby_brief\<close>\<close>

type_synonym standby_data = "string \<rightharpoonup> string"

text \<open>The body of the loop over the lines.\<close>

definition parse_line :: "standby_data \<Rightarrow> string \<Rightarrow> standby_data" where
  "parse_line standby_data line =
     (case re_match pattern line of
        Some gs \<Rightarrow> standby_data(match_group gs 2 \<mapsto> lower (match_group gs 4))
      | None \<Rightarrow> standby_data)"

definition parse_show_standby_brief :: "string \<Rightarrow> standby_data" where
  "parse_show_standby_brief output = foldl parse_line Map.empty (splitlines output)"

subsection \<open>\<open>validate_hsrp\<close>\<close>

text \<open>
  A condition is a dictionary from strings to strings; \<open>condition['Group']\<close> raises
  \<open>KeyError\<close> when the key is missing, the two expected states are read with a default.
  The results map a key to a dictionary of at most the two fields \<open>Active\<close> and
  \<open>Standby\<close>.
\<close>

datatype error = KeyError string

type_synonym condition = "string \<rightharpoonup> string"
type_synonym verdict = "string \<rightharpoonup> string"
type_synonym results = "string \<rightharpoonup> verdict"

text \<open>\<open>d.get(k, default)\<close>\<close>

definition dict_get :: "('k \<rightharpoonup> 'v) \<Rightarrow> 'k \<Rightarrow> 'v \<Rightarrow> 'v" where
  "dict_get d k dflt = (case d k of Some v \<Rightarrow> v | None \<Rightarrow> dflt)"

text \<open>The body of the loop over the expected conditions.\<close>

definition validate_condition :: "standby_data \<Rightarrow> string \<Rightarrow> results \<Rightarrow> condition
    \<Rightarrow> error + results" where
  "validate_condition standby_data device_name results condition =
     (case condition ''Group'' of
        None \<Rightarrow> Inl (KeyError ''Group'')
      | Some group' \<Rightarrow>
          let expected_active = lower (dict_get condition ''ExpectedActiveState'' '''');
              expected_standby = lower (dict_get condition ''ExpectedStandbyState'' '''');
              actual_state = dict_get standby_data group' '''';
              results1 =
                (if expected_active \<noteq> '''' then
                   results(''grp'' @ group' \<mapsto>
                     [''Active'' \<mapsto>
                        (if actual_state = ''active'' then ''pass''
                         else ''Failed : '' @ device_name @ '' No longer Active'')])
                 else results);
              results2 =
                (if expected_standby \<noteq> '''' then
                   results1(''grp'' @ group' \<mapsto>
                     (dict_get results1 (''grp'' @ group') Map.empty)
                       (''Standby'' \<mapsto>
                          (if actual_state = ''standby'' then ''pass''
                           else ''Failed : '' @ device_name @ '' No longer Standby'')))
                 else results1)
          in Inr results2)"

fun validate_loop :: "standby_data \<Rightarrow> string \<Rightarrow> results \<Rightarrow> condition list
    \<Rightarrow> error + results" where
  "validate_loop standby_data device_name results [] = Inr results"
| "validate_loop standby_data device_name results (condition # conditions) =
     (case validate_condition standby_data device_name results condition of
        Inl e \<Rightarrow> Inl e
      | Inr results' \<Rightarrow> validate_loop standby_data device_name results' conditions)"

definition validate_hsrp :: "standby_data \<Rightarrow> condition list \<Rightarrow> string \<Rightarrow> error + results" where
  "validate_hsrp standby_data expected_conditions device_name =
     validate_loop standby_data device_name Map.empty expected_conditions"

subsection \<open>The vocabulary of the specification\<close>

text \<open>
  The specification speaks of the whitespace-delimited tokens of a line. \<open>tokens\<close> is
  that reading, Python's \<open>line.split()\<close>: the maximal runs of characters that are not
  whitespace, in order.
\<close>

function tokens :: "string \<Rightarrow> string list" where
  "tokens [] = []"
| "tokens (c # cs) =
     (if is_space c then tokens cs
      else takeWhile (\<lambda>x. \<not> is_space x) (c # cs) #
           tokens (dropWhile (\<lambda>x. \<not> is_space x) cs))"
  by pat_completeness auto
termination
  by (relation "measure length") (auto simp: le_imp_less_Suc length_dropWhile_le)

text \<open>
  The lines the parser accepts, in the words of the specification: the line starts with
  a token (no whitespace before it), has seven tokens or more, and its third token is
  made of decimal digits.
\<close>

definition conforming :: "string \<Rightarrow> bool" where
  "conforming line =
     (line \<noteq> [] \<and> \<not> is_space (hd line) \<and> 7 \<le> length (tokens line) \<and>
      list_all is_digit (tokens line ! 2))"

text \<open>
  The specification's flags \<open>expectActive\<close> and \<open>expectStandby\<close>: what the two
  \<open>if\<close> tests of \<open>validate_hsrp\<close> read from a condition.
\<close>

definition expect_active :: "condition \<Rightarrow> bool" where
  "expect_active c = (lower (dict_get c ''ExpectedActiveState'' '''') \<noteq> '''')"

definition expect_standby :: "condition \<Rightarrow> bool" where
  "expect_standby c = (lower (dict_get c ''ExpectedStandbyState'' '''') \<noteq> '''')"

text \<open>The two values written into a verdict, for a group and a device name.\<close>

definition active_result :: "standby_data \<Rightarrow> string \<Rightarrow> string \<Rightarrow> string" where
  "active_result sd dev g =
     (if sd g = Some ''active'' then ''pass''
      else ''Failed : '' @ dev @ '' No longer Active'')"

definition standby_result :: "standby_data \<Rightarrow> string \<Rightarrow> string \<Rightarrow> string" where
  "standby_result sd dev g =
     (if sd g = Some ''standby'' then ''pass''
      else ''Failed : '' @ dev @ '' No longer Standby'')"

text \<open>A field of the verdict stored under a key, \<open>None\<close> when the key or the field is missing.\<close>

definition verdict_field :: "results \<Rightarrow> string \<Rightarrow> string \<Rightarrow> string option" where
  "verdict_field res k f = (case res k of None \<Rightarrow> None | Some v \<Rightarrow> v f)"

text \<open>
  An entry that replaces the verdict of group \<open>g\<close>: it is of that group and expects the
  active state only, so the step for it assigns a record with the single field
  \<open>Active\<close>.
\<close>

definition overwrites :: "string \<Rightarrow> condition \<Rightarrow> bool" where
  "overwrites g c = (c ''Group'' = Some g \<and> expect_active c \<and> \<not> expect_standby c)"

subsection \<open>Patterns built from fields\<close>

text \<open>
  A pattern of capturing fields separated by \<open>\s+\<close>, and what it asks of the tokens of
  a line: one token for each field, made of digits where the field is \<open>\d+\<close>.
\<close>

fun fields_pattern :: "cls list \<Rightarrow> item list" where
  "fields_pattern [] = []"
| "fields_pattern [c] = [(c, True)]"
| "fields_pattern (c # c' # cs) = (c, True) # (Space, False) # fields_pattern (c' # cs)"

fun field_ok :: "cls \<Rightarrow> string \<Rightarrow> bool" where
  "field_ok Digit t = list_all is_digit t"
| "field_ok c t = True"

fun fields_ok :: "cls list \<Rightarrow> string list \<Rightarrow> bool" where
  "fields_ok [] ts = True"
| "fields_ok (c # cs) [] = False"
| "fields_ok (c # cs) (t # ts) = (field_ok c t \<and> fields_ok cs ts)"

section \<open>The regular expression, read as tokens\<close>

subsection \<open>Backtracking\<close>

lemma try_lens_all_fail:
  "(\<And>j. 0 < j \<Longrightarrow> j \<le> n \<Longrightarrow> k (drop j s) = None) \<Longrightarrow> try_lens k cap s n = None"
  by (induction n) auto

lemma try_lens_greedy:
  assumes "0 < n" and "\<And>j. 0 < j \<Longrightarrow> j < n \<Longrightarrow> k (drop j s) = None"
  shows "try_lens k cap s n =
         map_option (\<lambda>gs. if cap then take n s # gs else gs) (k (drop n s))"
proof -
  from assms(1) obtain m where n: "n = Suc m" by (cases n) auto
  have "try_lens k cap s m = None"
    using assms(2) n by (intro try_lens_all_fail) auto
  then show ?thesis
    by (simp add: n split: option.splits)
qed

lemma re_match_head_fail:
  "s = [] \<or> \<not> in_cls c (hd s) \<Longrightarrow> re_match ((c, cap) # p) s = None"
  by (cases s) auto

lemma takeWhile_run_pos:
  "s \<noteq> [] \<Longrightarrow> P (hd s) \<Longrightarrow> 0 < length (takeWhile P s) \<and> takeWhile P s \<noteq> []"
  by (cases s) auto

lemma drop_in_run:
  assumes "j < length (takeWhile P s)"
  shows "drop j s \<noteq> [] \<and> P (hd (drop j s))"
proof -
  have le: "length (takeWhile P s) \<le> length s" by (rule length_takeWhile_le)
  with assms have js: "j < length s" by simp
  have "takeWhile P s ! j = s ! j" using assms by (rule takeWhile_nth)
  moreover have "takeWhile P s ! j \<in> set (takeWhile P s)" using assms by simp
  ultimately have "P (s ! j)" by (metis set_takeWhileD)
  with js show ?thesis by (simp add: hd_drop_conv_nth)
qed

lemma re_match_step:
  assumes disj: "\<And>x. in_cls c x \<Longrightarrow> \<not> in_cls c' x"
  shows "re_match ((c, cap) # (c', cap') # p) s =
         (if s = [] \<or> \<not> in_cls c (hd s) then None
          else map_option (\<lambda>gs. if cap then takeWhile (in_cls c) s # gs else gs)
                 (re_match ((c', cap') # p) (dropWhile (in_cls c) s)))"
proof (cases "s = [] \<or> \<not> in_cls c (hd s)")
  case True
  then show ?thesis using re_match_head_fail [of s c cap "(c', cap') # p"] by simp
next
  case False
  let ?n = "length (takeWhile (in_cls c) s)"
  from False have pos: "0 < ?n" by (simp add: takeWhile_run_pos)
  have fail: "re_match ((c', cap') # p) (drop j s) = None" if "0 < j" "j < ?n" for j
  proof -
    from that(2) have "drop j s \<noteq> [] \<and> in_cls c (hd (drop j s))" by (rule drop_in_run)
    then have "\<not> in_cls c' (hd (drop j s))" using disj by blast
    then show ?thesis by (rule re_match_head_fail [OF disjI2])
  qed
  have tk: "take ?n s = takeWhile (in_cls c) s"
    by (rule takeWhile_eq_take [symmetric])
  have dr: "drop ?n s = dropWhile (in_cls c) s"
    by (rule dropWhile_eq_drop [symmetric])
  have "re_match ((c, cap) # (c', cap') # p) s =
        try_lens (re_match ((c', cap') # p)) cap s ?n" by simp
  also have "\<dots> = map_option (\<lambda>gs. if cap then take ?n s # gs else gs)
                     (re_match ((c', cap') # p) (drop ?n s))"
    using pos fail by (rule try_lens_greedy)
  finally show ?thesis
    using False unfolding tk dr by (simp del: re_match.simps)
qed

lemma re_match_last:
  "re_match [(c, cap)] s =
     (if s = [] \<or> \<not> in_cls c (hd s) then None
      else Some (if cap then [takeWhile (in_cls c) s] else []))"
proof (cases "s = [] \<or> \<not> in_cls c (hd s)")
  case True
  then show ?thesis using re_match_head_fail [of s c cap "[]"] by simp
next
  case False
  then obtain m where m: "length (takeWhile (in_cls c) s) = Suc m"
    using takeWhile_run_pos [of s "in_cls c"] by (cases "length (takeWhile (in_cls c) s)") auto
  have "take (Suc m) s = takeWhile (in_cls c) s"
    using m takeWhile_eq_take [of "in_cls c" s] by simp
  then show ?thesis using False m by simp
qed

subsection \<open>Fields and gaps\<close>

lemma digit_not_space: "is_digit c \<Longrightarrow> \<not> is_space c"
  by (auto simp: is_digit_def is_space_def)

lemma tokens_dropWhile_space: "tokens (dropWhile is_space s) = tokens s"
  by (induction s) auto

lemma tokens_nonspace_head:
  "s \<noteq> [] \<Longrightarrow> \<not> is_space (hd s) \<Longrightarrow>
   tokens s = takeWhile (\<lambda>x. \<not> is_space x) s # tokens (dropWhile (\<lambda>x. \<not> is_space x) s)"
  by (cases s) auto

lemma digits_field:
  "list_all is_digit (takeWhile (\<lambda>x. \<not> is_space x) s) \<Longrightarrow>
   takeWhile is_digit s = takeWhile (\<lambda>x. \<not> is_space x) s \<and>
   dropWhile is_digit s = dropWhile (\<lambda>x. \<not> is_space x) s"
  by (induction s) (auto dest: digit_not_space split: if_splits)

lemma nondigit_field:
  "\<not> list_all is_digit (takeWhile (\<lambda>x. \<not> is_space x) s) \<Longrightarrow>
   dropWhile is_digit s \<noteq> [] \<and> \<not> is_space (hd (dropWhile is_digit s))"
  by (induction s) (auto split: if_splits)

lemma fields_pattern_cons:
  "\<exists>p. fields_pattern (c # cs) = (c, True) # p"
  by (cases cs) auto

text \<open>One field followed by a gap.\<close>

lemma field_then_gap:
  assumes c: "c \<noteq> Space" and s: "s \<noteq> []" "\<not> is_space (hd s)"
  shows "re_match ((c, True) # (Space, False) # p) s =
         (if field_ok c (takeWhile (\<lambda>x. \<not> is_space x) s)
          then map_option ((#) (takeWhile (\<lambda>x. \<not> is_space x) s))
                 (re_match ((Space, False) # p) (dropWhile (\<lambda>x. \<not> is_space x) s))
          else None)"
proof (cases c)
  case NonSpace
  have "re_match ((NonSpace, True) # (Space, False) # p) s =
        (if s = [] \<or> \<not> in_cls NonSpace (hd s) then None
          else map_option (\<lambda>gs. if True then takeWhile (in_cls NonSpace) s # gs else gs)
                 (re_match ((Space, False) # p) (dropWhile (in_cls NonSpace) s)))"
    by (rule re_match_step) simp
  moreover have "in_cls NonSpace = (\<lambda>x. \<not> is_space x)" by (rule ext) simp
  ultimately show ?thesis using s NonSpace by (simp del: re_match.simps)
next
  case Space
  with c show ?thesis by simp
next
  case Digit
  have step: "re_match ((Digit, True) # (Space, False) # p) s =
        (if s = [] \<or> \<not> in_cls Digit (hd s) then None
          else map_option (\<lambda>gs. if True then takeWhile (in_cls Digit) s # gs else gs)
                 (re_match ((Space, False) # p) (dropWhile (in_cls Digit) s)))"
    by (rule re_match_step) (simp add: digit_not_space)
  have dg: "in_cls Digit = is_digit" by (rule ext) simp
  show ?thesis
  proof (cases "list_all is_digit (takeWhile (\<lambda>x. \<not> is_space x) s)")
    case True
    from s have "hd s \<in> set (takeWhile (\<lambda>x. \<not> is_space x) s)" by (cases s) auto
    with True have "is_digit (hd s)" by (simp add: list_all_iff)
    with step s True Digit digits_field [OF True] show ?thesis
      by (simp add: dg del: re_match.simps)
  next
    case False
    from nondigit_field [OF False]
    have "re_match ((Space, False) # p) (dropWhile is_digit s) = None"
      by (intro re_match_head_fail) simp
    with step False Digit show ?thesis by (simp add: dg del: re_match.simps)
  qed
qed

text \<open>A gap followed by the next field.\<close>

lemma gap_then_field:
  assumes "c \<noteq> Space"
  shows "re_match ((Space, False) # (c, True) # p) s =
         (if s = [] \<or> \<not> is_space (hd s) then None
          else re_match ((c, True) # p) (dropWhile is_space s))"
proof -
  have "re_match ((Space, False) # (c, True) # p) s =
        (if s = [] \<or> \<not> in_cls Space (hd s) then None
          else map_option (\<lambda>gs. if False then takeWhile (in_cls Space) s # gs else gs)
                 (re_match ((c, True) # p) (dropWhile (in_cls Space) s)))"
    using assms by (intro re_match_step) (cases c; auto dest: digit_not_space)
  moreover have "in_cls Space = is_space" by (rule ext) simp
  ultimately show ?thesis by (simp del: re_match.simps add: option.map_ident)
qed

lemma dropWhile_nonspace_head:
  "dropWhile (\<lambda>x. \<not> is_space x) s = [] \<or> is_space (hd (dropWhile (\<lambda>x. \<not> is_space x) s))"
  using hd_dropWhile [of "\<lambda>x. \<not> is_space x" s] by auto

lemma dropWhile_space_head:
  "dropWhile is_space s = [] \<or> \<not> is_space (hd (dropWhile is_space s))"
  using hd_dropWhile [of is_space s] by auto

lemma fields_match:
  assumes "Space \<notin> set fs" "fs \<noteq> []" "last fs = NonSpace" "s = [] \<or> \<not> is_space (hd s)"
  shows "re_match (fields_pattern fs) s =
         (if fields_ok fs (tokens s) then Some (take (length fs) (tokens s)) else None)"
  using assms
proof (induction fs arbitrary: s rule: fields_pattern.induct)
  case 1
  then show ?case by simp
next
  case (2 c)
  then have c: "c = NonSpace" by simp
  show ?case
  proof (cases "s = []")
    case True
    then show ?thesis by simp
  next
    case False
    with 2 have hd: "\<not> is_space (hd s)" by simp
    have "in_cls NonSpace = (\<lambda>x. \<not> is_space x)" by (rule ext) simp
    with False hd show ?thesis
      using re_match_last [of NonSpace True s] tokens_nonspace_head [OF False hd]
      by (simp add: c del: re_match.simps)
  qed
next
  case (3 c c' cs)
  let ?ns = "\<lambda>x. \<not> is_space x"
  from 3 have c: "c \<noteq> Space" and c': "c' \<noteq> Space" by auto
  obtain p where p: "fields_pattern (c' # cs) = (c', True) # p"
    using fields_pattern_cons by blast
  show ?case
  proof (cases "s = []")
    case True
    then show ?thesis by simp
  next
    case False
    with 3 have hd: "\<not> is_space (hd s)" by simp
    let ?t = "takeWhile ?ns s" and ?s1 = "dropWhile ?ns s"
    let ?s2 = "dropWhile is_space ?s1"
    have tok: "tokens s = ?t # tokens ?s2"
      using tokens_nonspace_head [OF False hd] by (simp add: tokens_dropWhile_space)
    have IH: "re_match (fields_pattern (c' # cs)) ?s2 =
              (if fields_ok (c' # cs) (tokens ?s2)
               then Some (take (length (c' # cs)) (tokens ?s2)) else None)"
      using 3 dropWhile_space_head [of ?s1] by (intro "3.IH") auto
    have fg: "re_match (fields_pattern (c # c' # cs)) s =
              (if field_ok c ?t
               then map_option ((#) ?t) (re_match ((Space, False) # (c', True) # p) ?s1)
               else None)"
      using field_then_gap [OF c False hd, of "(c', True) # p"] by (simp add: p del: re_match.simps)
    show ?thesis
    proof (cases "?s1 = []")
      case True
      then have "re_match ((Space, False) # (c', True) # p) ?s1 = None"
        by (intro re_match_head_fail) simp
      moreover have "tokens s = [?t]" using tok True by simp
      ultimately show ?thesis using fg by (simp del: re_match.simps)
    next
      case s1: False
      with dropWhile_nonspace_head [of s] have "is_space (hd ?s1)" by blast
      with s1 have "re_match ((Space, False) # (c', True) # p) ?s1 =
                    re_match (fields_pattern (c' # cs)) ?s2"
        unfolding p gap_then_field [OF c', of p ?s1] by (simp only: if_False simp_thms)
      with fg IH tok show ?thesis by (simp del: re_match.simps)
    qed
  qed
qed

lemma fields_ok_iff:
  "fields_ok fs ts \<longleftrightarrow> length fs \<le> length ts \<and> (\<forall>i<length fs. field_ok (fs ! i) (ts ! i))"
  by (induction fs ts rule: fields_ok.induct) (auto simp: less_Suc_eq_0_disj)

lemma fields_ok_pattern:
  "fields_ok [NonSpace, NonSpace, Digit, NonSpace, NonSpace, NonSpace, NonSpace] ts \<longleftrightarrow>
   7 \<le> length ts \<and> list_all is_digit (ts ! 2)"
  by (simp add: fields_ok_iff All_less_Suc2 numeral_eq_Suc)

lemma pattern_fields:
  "pattern = fields_pattern [NonSpace, NonSpace, Digit, NonSpace, NonSpace, NonSpace, NonSpace]"
  by (simp add: pattern_def)

lemma re_match_pattern:
  "re_match pattern line = (if conforming line then Some (take 7 (tokens line)) else None)"
proof (cases "line = [] \<or> \<not> is_space (hd line)")
  case True
  then show ?thesis
    unfolding pattern_fields
    by (subst fields_match) (auto simp: fields_ok_pattern conforming_def numeral_eq_Suc)
next
  case False
  then have "re_match ((NonSpace, True) # tl pattern) line = None"
    by (intro re_match_head_fail) simp
  moreover have "pattern = (NonSpace, True) # tl pattern" by (simp add: pattern_def)
  ultimately show ?thesis using False by (simp add: conforming_def)
qed

section \<open>The validator, one condition at a time\<close>

lemma actual_state_active:
  "(dict_get sd g '''' = ''active'') = (sd g = Some ''active'')"
  by (simp add: dict_get_def split: option.splits)

lemma actual_state_standby:
  "(dict_get sd g '''' = ''standby'') = (sd g = Some ''standby'')"
  by (simp add: dict_get_def split: option.splits)

lemma dict_get_upd_same: "dict_get (m(k \<mapsto> v)) k d = v"
  by (simp add: dict_get_def)

lemma validate_condition_eq:
  assumes "c ''Group'' = Some g"
  shows "validate_condition sd dev res c =
         Inr (if expect_active c then
                if expect_standby c then
                  res(''grp'' @ g \<mapsto> [''Active'' \<mapsto> active_result sd dev g,
                                        ''Standby'' \<mapsto> standby_result sd dev g])
                else res(''grp'' @ g \<mapsto> [''Active'' \<mapsto> active_result sd dev g])
              else if expect_standby c then
                res(''grp'' @ g \<mapsto>
                  (dict_get res (''grp'' @ g) Map.empty)(''Standby'' \<mapsto> standby_result sd dev g))
              else res)"
  using assms
  by (simp add: validate_condition_def Let_def expect_active_def expect_standby_def
      active_result_def standby_result_def actual_state_active actual_state_standby
      dict_get_upd_same)

lemma validate_condition_no_group:
  "c ''Group'' = None \<Longrightarrow> validate_condition sd dev res c = Inl (KeyError ''Group'')"
  by (simp add: validate_condition_def)

lemma validate_condition_Inr_group:
  "validate_condition sd dev res c = Inr res' \<Longrightarrow> \<exists>g. c ''Group'' = Some g"
  by (cases "c ''Group''") (simp_all add: validate_condition_no_group)

lemma step_other_key:
  assumes "c ''Group'' = Some g'" "g' \<noteq> g" "validate_condition sd dev res c = Inr res'"
  shows "res' (''grp'' @ g) = res (''grp'' @ g)"
  using assms by (auto simp: validate_condition_eq split: if_splits)

lemma step_active_field:
  assumes "c ''Group'' = Some g'" "validate_condition sd dev res c = Inr res'"
  shows "verdict_field res' (''grp'' @ g) ''Active'' =
         (if g' = g \<and> expect_active c then Some (active_result sd dev g)
          else verdict_field res (''grp'' @ g) ''Active'')"
  using assms
  by (auto simp: validate_condition_eq verdict_field_def dict_get_def
      split: if_splits option.splits)

lemma loop_active_field:
  "validate_loop sd dev res conds = Inr res' \<Longrightarrow>
   verdict_field res' (''grp'' @ g) ''Active'' =
     (if \<exists>c\<in>set conds. c ''Group'' = Some g \<and> expect_active c
      then Some (active_result sd dev g)
      else verdict_field res (''grp'' @ g) ''Active'')"
proof (induction conds arbitrary: res)
  case Nil
  then show ?case by simp
next
  case (Cons c conds)
  from Cons.prems obtain r where
    r: "validate_condition sd dev res c = Inr r" and
    rest: "validate_loop sd dev r conds = Inr res'"
    by (auto split: sum.splits)
  from r obtain g' where g': "c ''Group'' = Some g'"
    using validate_condition_Inr_group by blast
  show ?case
    using Cons.IH [OF rest] step_active_field [OF g' r, of g] g' by auto
qed

lemma loop_append:
  "validate_loop sd dev res (xs @ ys) =
     (case validate_loop sd dev res xs of
        Inl e \<Rightarrow> Inl e
      | Inr r \<Rightarrow> validate_loop sd dev r ys)"
  by (induction xs arbitrary: res) (auto split: sum.splits)

lemma loop_other_groups:
  "validate_loop sd dev res conds = Inr res' \<Longrightarrow>
   \<forall>c\<in>set conds. c ''Group'' \<noteq> Some g \<Longrightarrow>
   res' (''grp'' @ g) = res (''grp'' @ g)"
proof (induction conds arbitrary: res)
  case Nil
  then show ?case by simp
next
  case (Cons c conds)
  from Cons.prems obtain r where
    r: "validate_condition sd dev res c = Inr r" and
    rest: "validate_loop sd dev r conds = Inr res'"
    by (auto split: sum.splits)
  from r obtain g' where g': "c ''Group'' = Some g'"
    using validate_condition_Inr_group by blast
  with Cons.prems have "g' \<noteq> g" by auto
  from step_other_key [OF g' this r] Cons.IH [OF rest] Cons.prems show ?case by simp
qed

lemma loop_total:
  "\<forall>c\<in>set conds. c ''Group'' \<noteq> None \<Longrightarrow> \<exists>res'. validate_loop sd dev res conds = Inr res'"
proof (induction conds arbitrary: res)
  case Nil
  then show ?case by simp
next
  case (Cons c conds)
  then obtain g where "c ''Group'' = Some g" by auto
  then obtain r where "validate_condition sd dev res c = Inr r"
    by (simp add: validate_condition_eq)
  with Cons show ?case by simp
qed

lemma loop_split:
  assumes "validate_loop sd dev res (pre @ c # post) = Inr res'"
  obtains r r' where "validate_loop sd dev res pre = Inr r"
    "validate_condition sd dev r c = Inr r'" "validate_loop sd dev r' post = Inr res'"
  using assms by (auto simp: loop_append split: sum.splits)

section \<open>The parser, line by line\<close>

lemma parse_line_conforming:
  "parse_line sd line =
     (if conforming line then sd(tokens line ! 1 \<mapsto> lower (tokens line ! 3)) else sd)"
  by (simp add: parse_line_def re_match_pattern match_group_def)

lemma tokens_nonempty: "[] \<notin> set (tokens s)"
  by (induction s rule: tokens.induct) auto

lemma foldl_parse_line_skip:
  "\<forall>l\<in>set ls. \<not> (conforming l \<and> tokens l ! 1 = g) \<Longrightarrow> foldl parse_line sd ls g = sd g"
  by (induction ls arbitrary: sd) (auto simp: parse_line_conforming)

lemma foldl_parse_line_last:
  assumes "conforming line"
    and "\<forall>l\<in>set post. \<not> (conforming l \<and> tokens l ! 1 = tokens line ! 1)"
  shows "foldl parse_line sd (pre @ line # post) (tokens line ! 1) =
         Some (lower (tokens line ! 3))"
  using assms by (simp add: foldl_parse_line_skip parse_line_conforming)

lemma foldl_parse_line_none:
  "\<forall>l\<in>set ls. re_match pattern l = None \<Longrightarrow> foldl parse_line sd ls = sd"
  by (induction ls arbitrary: sd) (auto simp: parse_line_def)

section \<open>The flags of a condition and the later conditions of a group\<close>

lemma expect_active_iff:
  "expect_active c \<longleftrightarrow> (\<exists>v. c ''ExpectedActiveState'' = Some v \<and> v \<noteq> [])"
  by (auto simp: expect_active_def dict_get_def lower_def split: option.splits)

lemma expect_standby_iff:
  "expect_standby c \<longleftrightarrow> (\<exists>v. c ''ExpectedStandbyState'' = Some v \<and> v \<noteq> [])"
  by (auto simp: expect_standby_def dict_get_def lower_def split: option.splits)

lemma step_standby_field:
  assumes "c ''Group'' = Some g'" "validate_condition sd dev res c = Inr res'"
    and "\<not> overwrites g c"
  shows "verdict_field res' (''grp'' @ g) ''Standby'' =
         (if g' = g \<and> expect_standby c then Some (standby_result sd dev g)
          else verdict_field res (''grp'' @ g) ''Standby'')"
  using assms
  by (auto simp: validate_condition_eq verdict_field_def dict_get_def overwrites_def
      split: if_splits option.splits)

lemma loop_standby_field:
  "validate_loop sd dev res conds = Inr res' \<Longrightarrow>
   \<forall>c\<in>set conds. \<not> overwrites g c \<Longrightarrow>
   verdict_field res' (''grp'' @ g) ''Standby'' =
     (if \<exists>c\<in>set conds. c ''Group'' = Some g \<and> expect_standby c
      then Some (standby_result sd dev g)
      else verdict_field res (''grp'' @ g) ''Standby'')"
proof (induction conds arbitrary: res)
  case Nil
  then show ?case by simp
next
  case (Cons c conds)
  from Cons.prems obtain r where
    r: "validate_condition sd dev res c = Inr r" and
    rest: "validate_loop sd dev r conds = Inr res'"
    by (auto split: sum.splits)
  from r obtain g' where g': "c ''Group'' = Some g'"
    using validate_condition_Inr_group by blast
  from Cons.prems have nc: "\<not> overwrites g c" and nr: "\<forall>c\<in>set conds. \<not> overwrites g c"
    by simp_all
  show ?case
    using Cons.IH [OF rest nr] step_standby_field [OF g' r nc] g' by auto
qed

lemma step_keeps_both_fields:
  assumes "validate_condition sd dev res c = Inr res'"
    and "\<not> overwrites g c"
    and "res (''grp'' @ g) =
         Some [''Active'' \<mapsto> active_result sd dev g, ''Standby'' \<mapsto> standby_result sd dev g]"
  shows "res' (''grp'' @ g) =
         Some [''Active'' \<mapsto> active_result sd dev g, ''Standby'' \<mapsto> standby_result sd dev g]"
proof -
  from assms(1) obtain g' where g': "c ''Group'' = Some g'"
    using validate_condition_Inr_group by blast
  show ?thesis
  proof (cases "g' = g")
    case False
    from step_other_key [OF g' False assms(1)] assms(3) show ?thesis by simp
  next
    case True
    with assms g' show ?thesis
      by (auto simp: validate_condition_eq overwrites_def dict_get_def split: if_splits)
  qed
qed

lemma loop_keeps_both_fields:
  "validate_loop sd dev res conds = Inr res' \<Longrightarrow>
   \<forall>c\<in>set conds. \<not> overwrites g c \<Longrightarrow>
   res (''grp'' @ g) =
     Some [''Active'' \<mapsto> active_result sd dev g, ''Standby'' \<mapsto> standby_result sd dev g] \<Longrightarrow>
   res' (''grp'' @ g) =
     Some [''Active'' \<mapsto> active_result sd dev g, ''Standby'' \<mapsto> standby_result sd dev g]"
proof (induction conds arbitrary: res)
  case Nil
  then show ?case by simp
next
  case (Cons c conds)
  from Cons.prems(1) obtain r where
    r: "validate_condition sd dev res c = Inr r" and
    rest: "validate_loop sd dev r conds = Inr res'"
    by (auto split: sum.splits)
  from Cons.prems(2) have nc: "\<not> overwrites g c" and nr: "\<forall>c\<in>set conds. \<not> overwrites g c"
    by simp_all
  show ?case
    by (rule Cons.IH [OF rest nr step_keeps_both_fields [OF r nc Cons.prems(3)]])
qed

lemma loop_steps:
  assumes all: "\<forall>c'\<in>set (pre @ c # post). c' ''Group'' \<noteq> None"
  obtains r r' res where
    "validate_loop sd dev Map.empty pre = Inr r"
    "validate_condition sd dev r c = Inr r'"
    "validate_loop sd dev r' post = Inr res"
    "validate_hsrp sd (pre @ c # post) dev = Inr res"
    "validate_loop sd dev Map.empty (pre @ c # post) = Inr res"
proof -
  from loop_total [OF all, of sd dev Map.empty] obtain res where
    res: "validate_loop sd dev Map.empty (pre @ c # post) = Inr res" by blast
  from res obtain r r' where r: "validate_loop sd dev Map.empty pre = Inr r"
    and r': "validate_condition sd dev r c = Inr r'"
    and p: "validate_loop sd dev r' post = Inr res"
    by (rule loop_split)
  with res that show ?thesis
    by (simp add: validate_hsrp_def)
qed

section \<open>The keys and the fields of the result\<close>

lemma step_keys:
  assumes "c ''Group'' = Some g" "validate_condition sd dev res c = Inr res'"
  shows "(res' k \<noteq> None) =
         (res k \<noteq> None \<or> (k = ''grp'' @ g \<and> (expect_active c \<or> expect_standby c)))"
  using assms by (auto simp: validate_condition_eq split: if_splits)

lemma loop_keys:
  "validate_loop sd dev res conds = Inr res' \<Longrightarrow>
   (res' k \<noteq> None) =
     (res k \<noteq> None \<or>
      (\<exists>c\<in>set conds. \<exists>g. c ''Group'' = Some g \<and> k = ''grp'' @ g \<and>
         (expect_active c \<or> expect_standby c)))"
proof (induction conds arbitrary: res)
  case Nil
  then show ?case by simp
next
  case (Cons c conds)
  from Cons.prems obtain r where
    r: "validate_condition sd dev res c = Inr r" and
    rest: "validate_loop sd dev r conds = Inr res'"
    by (auto split: sum.splits)
  from r obtain g where g: "c ''Group'' = Some g"
    using validate_condition_Inr_group by blast
  show ?case
    unfolding Cons.IH [OF rest] step_keys [OF g r] using g by auto
qed

lemma step_standby_range:
  assumes "validate_condition sd dev res c = Inr res'"
    and "verdict_field res (''grp'' @ g) ''Standby'' = None \<or>
         verdict_field res (''grp'' @ g) ''Standby'' = Some (standby_result sd dev g)"
  shows "verdict_field res' (''grp'' @ g) ''Standby'' = None \<or>
         verdict_field res' (''grp'' @ g) ''Standby'' = Some (standby_result sd dev g)"
proof -
  from assms(1) obtain g' where g': "c ''Group'' = Some g'"
    using validate_condition_Inr_group by blast
  show ?thesis
  proof (cases "g' = g")
    case False
    from step_other_key [OF g' False assms(1)] assms(2) show ?thesis
      by (simp add: verdict_field_def)
  next
    case True
    with assms g' show ?thesis
      by (auto simp: validate_condition_eq verdict_field_def dict_get_def
          split: if_splits option.splits)
  qed
qed

lemma loop_standby_range:
  "validate_loop sd dev res conds = Inr res' \<Longrightarrow>
   verdict_field res (''grp'' @ g) ''Standby'' = None \<or>
   verdict_field res (''grp'' @ g) ''Standby'' = Some (standby_result sd dev g) \<Longrightarrow>
   verdict_field res' (''grp'' @ g) ''Standby'' = None \<or>
   verdict_field res' (''grp'' @ g) ''Standby'' = Some (standby_result sd dev g)"
proof (induction conds arbitrary: res)
  case Nil
  then show ?case by simp
next
  case (Cons c conds)
  from Cons.prems(1) obtain r where
    r: "validate_condition sd dev res c = Inr r" and
    rest: "validate_loop sd dev r conds = Inr res'"
    by (auto split: sum.splits)
  show ?case
    by (rule Cons.IH [OF rest step_standby_range [OF r Cons.prems(2)]])
qed

lemma dict_get_two_fields:
  "\<forall>k v. res k = Some v \<longrightarrow> dom v \<subseteq> {''Active'', ''Standby''} \<Longrightarrow>
   dom (dict_get res k Map.empty) \<subseteq> {''Active'', ''Standby''}"
  by (auto simp: dict_get_def split: option.splits)

lemma step_two_fields:
  assumes "validate_condition sd dev res c = Inr res'"
    and "\<forall>k v. res k = Some v \<longrightarrow> dom v \<subseteq> {''Active'', ''Standby''}"
  shows "\<forall>k v. res' k = Some v \<longrightarrow> dom v \<subseteq> {''Active'', ''Standby''}"
proof -
  from assms(1) obtain g where g: "c ''Group'' = Some g"
    using validate_condition_Inr_group by blast
  let ?key = "''grp'' @ g"
  have other: "res' k = res k" if "k \<noteq> ?key" for k
    using assms(1) g that by (auto simp: validate_condition_eq split: if_splits)
  have key: "dom v \<subseteq> {''Active'', ''Standby''}" if "res' ?key = Some v" for v
  proof -
    from assms(1) g that consider
      "v = [''Active'' \<mapsto> active_result sd dev g, ''Standby'' \<mapsto> standby_result sd dev g]"
      | "v = [''Active'' \<mapsto> active_result sd dev g]"
      | "v = (dict_get res ?key Map.empty)(''Standby'' \<mapsto> standby_result sd dev g)"
      | "res ?key = Some v"
      by (auto simp: validate_condition_eq split: if_splits)
    then show ?thesis
    proof cases
      case 3
      with dict_get_two_fields [OF assms(2), of ?key] show ?thesis by auto
    next
      case 4
      with assms(2) show ?thesis by simp
    qed auto
  qed
  show ?thesis
  proof (intro allI impI)
    fix k v assume kv: "res' k = Some v"
    show "dom v \<subseteq> {''Active'', ''Standby''}"
    proof (cases "k = ?key")
      case True
      with kv key show ?thesis by simp
    next
      case False
      with other kv assms(2) show ?thesis by simp
    qed
  qed
qed

lemma loop_two_fields:
  "validate_loop sd dev res conds = Inr res' \<Longrightarrow>
   \<forall>k v. res k = Some v \<longrightarrow> dom v \<subseteq> {''Active'', ''Standby''} \<Longrightarrow>
   \<forall>k v. res' k = Some v \<longrightarrow> dom v \<subseteq> {''Active'', ''Standby''}"
proof (induction conds arbitrary: res)
  case Nil
  then show ?case by simp
next
  case (Cons c conds)
  from Cons.prems(1) obtain r where
    r: "validate_condition sd dev res c = Inr r" and
    rest: "validate_loop sd dev r conds = Inr res'"
    by (auto split: sum.splits)
  show ?case
    by (rule Cons.IH [OF rest step_two_fields [OF r Cons.prems(2)]])
qed

lemma standby_kept:
  assumes "validate_loop sd dev Map.empty (pre @ c # post) = Inr res"
    and "c ''Group'' = Some g" and "expect_standby c"
    and "\<forall>c'\<in>set post. \<not> overwrites g c'"
  shows "verdict_field res (''grp'' @ g) ''Standby'' = Some (standby_result sd dev g)"
proof -
  from assms(1) obtain r r' where
    step: "validate_condition sd dev r c = Inr r'" and
    post: "validate_loop sd dev r' post = Inr res"
    by (rule loop_split)
  from step assms(2,3) have
    "verdict_field r' (''grp'' @ g) ''Standby'' = Some (standby_result sd dev g)"
    by (auto simp: validate_condition_eq verdict_field_def split: if_splits)
  with loop_standby_field [OF post assms(4)] show ?thesis
    by (auto split: if_splits)
qed

lemma loop_missing_group:
  "\<exists>c\<in>set conds. c ''Group'' = None \<Longrightarrow>
   validate_loop sd dev res conds = Inl (KeyError ''Group'')"
proof (induction conds arbitrary: res)
  case Nil
  then show ?case by simp
next
  case (Cons c conds)
  show ?case
  proof (cases "c ''Group''")
    case None
    then show ?thesis by (simp add: validate_condition_no_group)
  next
    case (Some g)
    then obtain r where r: "validate_condition sd dev res c = Inr r"
      by (simp add: validate_condition_eq)
    from Cons.prems Some have "\<exists>c\<in>set conds. c ''Group'' = None" by auto
    from Cons.IH [OF this, of r] r show ?thesis by simp
  qed
qed

section \<open>Evaluation on concrete inputs\<close>

lemmas char_eval = is_space_def is_digit_def is_linebreak_def
lemmas lower_eval = lower_def lower_char_def char_of_def bit_0
lemmas cond_eval = expect_active_def expect_standby_def dict_get_def lower_eval

text \<open>The three examples of the specification with one line and one expectation.\<close>

lemma example_1:
  "validate_hsrp
     (parse_show_standby_brief ''Gi0/1 1 110 Active 10.0.0.1 10.0.0.2 10.0.0.254'')
     [[''Group'' \<mapsto> ''1'', ''ExpectedActiveState'' \<mapsto> ''Active'']] ''CPE1''
   = Inr [''grp1'' \<mapsto> [''Active'' \<mapsto> ''pass'']]"
  by (simp add: validate_hsrp_def validate_condition_def dict_get_def lower_eval
      parse_show_standby_brief_def parse_line_def pattern_def match_group_def char_eval)

lemma example_2:
  "validate_hsrp
     (parse_show_standby_brief ''Gi0/1 1 110 Active 10.0.0.1 10.0.0.2 10.0.0.254'')
     [[''Group'' \<mapsto> ''1'', ''ExpectedStandbyState'' \<mapsto> ''Standby'']] ''CPE1''
   = Inr [''grp1'' \<mapsto> [''Standby'' \<mapsto> ''Failed : CPE1 No longer Standby'']]"
  by (simp add: validate_hsrp_def validate_condition_def dict_get_def lower_eval
      parse_show_standby_brief_def parse_line_def pattern_def match_group_def char_eval)

lemma example_3:
  "validate_hsrp Map.empty
     [[''Group'' \<mapsto> ''2'', ''ExpectedStandbyState'' \<mapsto> ''Standby'']] ''CPE2''
   = Inr [''grp2'' \<mapsto> [''Standby'' \<mapsto> ''Failed : CPE2 No longer Standby'']]"
  by (simp add: validate_hsrp_def validate_condition_def dict_get_def lower_eval)

section \<open>The claims\<close>

subsection \<open>C1: two entries for one group\<close>

text \<open>
  The two orders, for every group, observed state and device name. Active first: the
  standby step merges into the record and both fields are there. Standby first: the active
  step assigns a new record and the field \<open>Standby\<close> is gone.
\<close>

lemma active_then_standby_keeps_both:
  assumes "a ''Group'' = Some g" "expect_active a" "\<not> expect_standby a"
    and "s ''Group'' = Some g" "expect_standby s" "\<not> expect_active s"
  shows "validate_hsrp sd [a, s] dev =
         Inr [''grp'' @ g \<mapsto> [''Active'' \<mapsto> active_result sd dev g,
                                ''Standby'' \<mapsto> standby_result sd dev g]]"
  using assms by (simp add: validate_hsrp_def validate_condition_eq dict_get_upd_same)

lemma standby_then_active_keeps_active_only:
  assumes "a ''Group'' = Some g" "expect_active a" "\<not> expect_standby a"
    and "s ''Group'' = Some g" "expect_standby s" "\<not> expect_active s"
  shows "validate_hsrp sd [s, a] dev =
         Inr [''grp'' @ g \<mapsto> [''Active'' \<mapsto> active_result sd dev g]]"
  using assms by (simp add: validate_hsrp_def validate_condition_eq)

text \<open>
  Claim C1. For two expectation entries of the same group, one with only the active
  expectation and one with only the standby expectation, in either order, both fields end
  up in the one verdict stored under \<open>"grp" + group\<close>.

  The code does this in one order only. The standby branch merges its field into the
  verdict already stored under the key; the active branch assigns a fresh verdict with the
  single field \<open>Active\<close>. With the standby entry first and the active entry second, the
  \<open>Standby\<close> field written first is gone from the result: for group 1 observed as
  standby on device CPE1 the result holds the failed active check only, and the passed
  standby check is lost.
\<close>

theorem standby_then_active_drops_standby:
  "validate_hsrp [''1'' \<mapsto> ''standby'']
     [[''Group'' \<mapsto> ''1'', ''ExpectedStandbyState'' \<mapsto> ''Standby''],
      [''Group'' \<mapsto> ''1'', ''ExpectedActiveState'' \<mapsto> ''Active'']] ''CPE1''
   = Inr [''grp1'' \<mapsto> [''Active'' \<mapsto> ''Failed : CPE1 No longer Active'']]"
  by (simp add: validate_hsrp_def validate_condition_def dict_get_def lower_eval)

subsection \<open>C2: the order of the expectations\<close>

text \<open>
  Claim C2. Every permutation of the expectation list gives the same result.

  On the code the two orders of an active-only and a standby-only entry of group 7 give
  different results: active first keeps both fields, standby first keeps \<open>Active\<close>
  only. This is the overwrite of the active branch again.
\<close>

theorem expectation_order_changes_result:
  "validate_hsrp [''7'' \<mapsto> ''active'']
     [[''Group'' \<mapsto> ''7'', ''ExpectedActiveState'' \<mapsto> ''Active''],
      [''Group'' \<mapsto> ''7'', ''ExpectedStandbyState'' \<mapsto> ''Standby'']] ''CPE2''
   \<noteq>
   validate_hsrp [''7'' \<mapsto> ''active'']
     [[''Group'' \<mapsto> ''7'', ''ExpectedStandbyState'' \<mapsto> ''Standby''],
      [''Group'' \<mapsto> ''7'', ''ExpectedActiveState'' \<mapsto> ''Active'']] ''CPE2''"
proof -
  let ?sd = "[''7'' \<mapsto> ''active'']"
  let ?a = "[''Group'' \<mapsto> ''7'', ''ExpectedActiveState'' \<mapsto> ''Active'']"
  let ?s = "[''Group'' \<mapsto> ''7'', ''ExpectedStandbyState'' \<mapsto> ''Standby'']"
  let ?both = "[''grp7'' \<mapsto> [''Active'' \<mapsto> ''pass'',
                                ''Standby'' \<mapsto> ''Failed : CPE2 No longer Standby'']]"
  let ?one = "[''grp7'' \<mapsto> [''Active'' \<mapsto> ''pass'']]"
  have 1: "validate_hsrp ?sd [?a, ?s] ''CPE2'' = Inr ?both"
    by (simp add: validate_hsrp_def validate_condition_def dict_get_def lower_eval)
  have 2: "validate_hsrp ?sd [?s, ?a] ''CPE2'' = Inr ?one"
    by (simp add: validate_hsrp_def validate_condition_def dict_get_def lower_eval)
  have "verdict_field ?both ''grp7'' ''Standby'' \<noteq> verdict_field ?one ''grp7'' ''Standby''"
    by (simp add: verdict_field_def)
  then have "?both \<noteq> ?one"
    by metis
  then show ?thesis unfolding 1 2 by simp
qed

subsection \<open>C3: the active result\<close>

text \<open>
  Claim C3. When an entry of the list expects the active state for a group, the verdict of
  that group has the field \<open>Active\<close>; it is \<open>pass\<close> exactly when the observed state of
  the group is \<open>active\<close>, and the message \<open>Failed : device No longer Active\<close> for any
  other observed state, a missing group included. When no entry of the group expects the
  active state, the verdict has no field \<open>Active\<close>. The pass marker and the message are
  different strings. Every entry is taken to name its group.
\<close>

theorem active_result_field:
  assumes "\<forall>c\<in>set conds. c ''Group'' \<noteq> None"
  shows "\<exists>res. validate_hsrp sd conds dev = Inr res \<and>
           (\<forall>g. verdict_field res (''grp'' @ g) ''Active'' =
                  (if \<exists>c\<in>set conds. c ''Group'' = Some g \<and> expect_active c
                   then Some (if sd g = Some ''active'' then ''pass''
                              else ''Failed : '' @ dev @ '' No longer Active'')
                   else None)) \<and>
           ''pass'' \<noteq> ''Failed : '' @ dev @ '' No longer Active''"
proof -
  from loop_total [OF assms, of sd dev Map.empty] obtain res where
    res: "validate_loop sd dev Map.empty conds = Inr res" by blast
  have "verdict_field Map.empty k f = None" for k f by (simp add: verdict_field_def)
  with loop_active_field [OF res] res show ?thesis
    by (simp add: validate_hsrp_def active_result_def)
qed

theorem active_result_field_witness:
  "\<exists>res. validate_hsrp [''1'' \<mapsto> ''active'', ''2'' \<mapsto> ''init'']
            [[''Group'' \<mapsto> ''1'', ''ExpectedActiveState'' \<mapsto> ''Active''],
             [''Group'' \<mapsto> ''2'', ''ExpectedActiveState'' \<mapsto> ''Active''],
             [''Group'' \<mapsto> ''3'', ''ExpectedStandbyState'' \<mapsto> ''Standby'']] ''CPE1'' = Inr res \<and>
          verdict_field res ''grp1'' ''Active'' = Some ''pass'' \<and>
          verdict_field res ''grp2'' ''Active'' = Some ''Failed : CPE1 No longer Active'' \<and>
          verdict_field res ''grp3'' ''Active'' = None"
proof -
  let ?sd = "[''1'' \<mapsto> ''active'', ''2'' \<mapsto> ''init'']"
  let ?conds = "[[''Group'' \<mapsto> ''1'', ''ExpectedActiveState'' \<mapsto> ''Active''],
             [''Group'' \<mapsto> ''2'', ''ExpectedActiveState'' \<mapsto> ''Active''],
             [''Group'' \<mapsto> ''3'', ''ExpectedStandbyState'' \<mapsto> ''Standby'']]"
  have h: "\<forall>c\<in>set ?conds. c ''Group'' \<noteq> None" by simp
  from active_result_field [OF h, of ?sd "''CPE1''"] obtain res where
    res: "validate_hsrp ?sd ?conds ''CPE1'' = Inr res" and
    fld: "\<And>g. verdict_field res (''grp'' @ g) ''Active'' =
                  (if \<exists>c\<in>set ?conds. c ''Group'' = Some g \<and> expect_active c
                   then Some (if ?sd g = Some ''active'' then ''pass''
                              else ''Failed : '' @ ''CPE1'' @ '' No longer Active'')
                   else None)"
    by blast
  from fld [of "''1''"] fld [of "''2''"] fld [of "''3''"] res show ?thesis
    by (simp add: cond_eval)
qed

subsection \<open>C4: a well-formed line among other lines\<close>

text \<open>
  Claim C4. A line of seven whitespace-delimited tokens maps its second token to its
  fourth token in lower case, whatever malformed lines surround it.

  As stated the claim fails: a line of seven tokens whose third token is not a number is
  not parsed at all.
\<close>

theorem seven_tokens_without_digits_dropped:
  "length (tokens ''Gi0/1 1 high Active 10.0.0.1 10.0.0.2 10.0.0.254'') = 7 \<and>
   parse_show_standby_brief ''Gi0/1 1 high Active 10.0.0.1 10.0.0.2 10.0.0.254'' ''1'' = None"
  by (simp add: parse_show_standby_brief_def parse_line_def pattern_def char_eval)

text \<open>
  Claim C4, amended. A line of the text that has seven whitespace-delimited tokens, starts
  with its first token (no whitespace before it) and has decimal digits only as its third
  token maps its second token to its fourth token in lower case, whatever the lines before
  it and whatever the lines after it, as long as no later line that the parser accepts has
  the same second token.
\<close>

theorem well_formed_line_is_parsed:
  assumes "splitlines output = pre @ line # post"
    and "line \<noteq> []" and "\<not> is_space (hd line)"
    and "length (tokens line) = 7"
    and "list_all is_digit (tokens line ! 2)"
    and "\<forall>l\<in>set post. \<not> (conforming l \<and> tokens l ! 1 = tokens line ! 1)"
  shows "parse_show_standby_brief output (tokens line ! 1) = Some (lower (tokens line ! 3))"
proof -
  from assms(2-5) have "conforming line" by (simp add: conforming_def)
  from foldl_parse_line_last [OF this assms(6)] show ?thesis
    by (simp add: parse_show_standby_brief_def assms(1))
qed

theorem well_formed_line_is_parsed_witness:
  "parse_show_standby_brief
     (''Interface Grp Pri P State Active Standby Virtual IP'' @ [CHR 0x0A] @
      ''Gi0/1 1 110 Active 10.0.0.1 10.0.0.2 10.0.0.254'' @ [CHR 0x0A] @
      ''Gi0/2 7'') ''1'' = Some ''active''"
proof -
  let ?line = "''Gi0/1 1 110 Active 10.0.0.1 10.0.0.2 10.0.0.254''"
  let ?out = "''Interface Grp Pri P State Active Standby Virtual IP'' @ [CHR 0x0A] @
      ?line @ [CHR 0x0A] @ ''Gi0/2 7''"
  have 1: "splitlines ?out =
      [''Interface Grp Pri P State Active Standby Virtual IP''] @ ?line # [''Gi0/2 7'']"
    by (simp add: char_eval)
  have 2: "?line \<noteq> []" by simp
  have 3: "\<not> is_space (hd ?line)" by (simp add: char_eval)
  have 4: "length (tokens ?line) = 7" by (simp add: char_eval)
  have 5: "list_all is_digit (tokens ?line ! 2)" by (simp add: char_eval)
  have 6: "\<forall>l\<in>set [''Gi0/2 7'']. \<not> (conforming l \<and> tokens l ! 1 = tokens ?line ! 1)"
    by (simp add: conforming_def char_eval)
  from well_formed_line_is_parsed [OF 1 2 3 4 5 6] show ?thesis
    by (simp add: char_eval lower_eval)
qed

subsection \<open>C5: which lines contribute\<close>

text \<open>
  Claim C5. A line contributes an entry exactly when it has seven whitespace-delimited
  tokens.

  As stated the claim fails: the pattern is matched at the start of the line and does not
  have to reach its end, so a line of eight tokens contributes.
\<close>

theorem eight_token_line_contributes:
  "length (tokens ''Gi0/1 1 110 Active 10.0.0.1 10.0.0.2 10.0.0.254 extra'') = 8 \<and>
   parse_show_standby_brief ''Gi0/1 1 110 Active 10.0.0.1 10.0.0.2 10.0.0.254 extra'' ''1''
     = Some ''active''"
  by (simp add: parse_show_standby_brief_def parse_line_def pattern_def char_eval
      match_group_def lower_eval)

text \<open>
  Claim C5, amended. A line contributes an entry exactly when it starts with its first
  token (no whitespace before it), has seven whitespace-delimited tokens or more, and has
  decimal digits only as its third token; the entry maps the second token to the fourth in
  lower case and tokens after the seventh are ignored. Every other line leaves the mapping
  as it is.
\<close>

theorem line_contributes_iff:
  "(re_match pattern line \<noteq> None \<longleftrightarrow> conforming line) \<and>
   (conforming line \<longrightarrow>
      parse_line sd line = sd(tokens line ! 1 \<mapsto> lower (tokens line ! 3))) \<and>
   (\<not> conforming line \<longrightarrow> parse_line sd line = sd)"
  by (simp add: parse_line_conforming re_match_pattern)

theorem line_contributes_iff_witness:
  "conforming ''Gi0/1 1 110 Active 10.0.0.1 10.0.0.2 10.0.0.254 extra'' \<and>
   parse_line Map.empty ''Gi0/1 1 110 Active 10.0.0.1 10.0.0.2 10.0.0.254 extra'' ''1''
     = Some ''active'' \<and>
   \<not> conforming '' Gi0/1 1 110 Active 10.0.0.1 10.0.0.2 10.0.0.254'' \<and>
   parse_line Map.empty '' Gi0/1 1 110 Active 10.0.0.1 10.0.0.2 10.0.0.254'' = Map.empty"
proof -
  let ?a = "''Gi0/1 1 110 Active 10.0.0.1 10.0.0.2 10.0.0.254 extra''"
  let ?b = "'' Gi0/1 1 110 Active 10.0.0.1 10.0.0.2 10.0.0.254''"
  have a: "conforming ?a" by (simp add: conforming_def char_eval)
  have b: "\<not> conforming ?b" by (simp add: conforming_def char_eval)
  from a b line_contributes_iff [of ?a Map.empty] line_contributes_iff [of ?b Map.empty]
  show ?thesis by (simp add: char_eval lower_eval)
qed

subsection \<open>C6: a group the device did not report\<close>

text \<open>
  What the code does for an entry whose group is missing from the observed states, in a
  list whose entries all name their group: the call returns a result, the observed state
  is read as the empty string, the active flag gives its fixed failure message wherever
  the entry stands in the list, and the standby flag gives its fixed failure message when
  no later entry of the group expects the active state only.
\<close>

lemma absent_group_message_unless_overwritten:
  assumes "\<forall>c'\<in>set (pre @ c # post). c' ''Group'' \<noteq> None"
    and "c ''Group'' = Some g"
    and "sd g = None"
  shows "\<exists>res. validate_hsrp sd (pre @ c # post) dev = Inr res \<and>
           (expect_active c \<longrightarrow>
              verdict_field res (''grp'' @ g) ''Active'' =
                Some (''Failed : '' @ dev @ '' No longer Active'')) \<and>
           (expect_standby c \<and> (\<forall>c'\<in>set post. \<not> overwrites g c') \<longrightarrow>
              verdict_field res (''grp'' @ g) ''Standby'' =
                Some (''Failed : '' @ dev @ '' No longer Standby''))"
proof -
  from assms(1) obtain r r' res where
    step: "validate_condition sd dev r c = Inr r'" and
    post: "validate_loop sd dev r' post = Inr res" and
    res: "validate_hsrp sd (pre @ c # post) dev = Inr res" and
    whole: "validate_loop sd dev Map.empty (pre @ c # post) = Inr res"
    by (rule loop_steps)
  have a: "verdict_field res (''grp'' @ g) ''Active'' =
             Some (''Failed : '' @ dev @ '' No longer Active'')" if "expect_active c"
    using loop_active_field [OF whole, of g] that assms(2,3)
    by (auto simp: active_result_def)
  have s: "verdict_field res (''grp'' @ g) ''Standby'' =
             Some (''Failed : '' @ dev @ '' No longer Standby'')"
    if "expect_standby c" "\<forall>c'\<in>set post. \<not> overwrites g c'"
  proof -
    from step assms(2) that(1) have
      "verdict_field r' (''grp'' @ g) ''Standby'' = Some (standby_result sd dev g)"
      by (auto simp: validate_condition_eq verdict_field_def split: if_splits)
    with loop_standby_field [OF post that(2)] assms(3) show ?thesis
      by (auto simp: standby_result_def)
  qed
  from res a s show ?thesis by blast
qed

text \<open>
  Claim C6. For every expectation entry whose group is missing from the observed states,
  \<open>validate_hsrp\<close> raises no error, the observed state is read as the empty token, and
  every flag that is set gives its fixed failure message in the result.

  The code loses the message of the standby flag when a later entry of the same group
  expects the active state only. No group is observed, the first entry expects group 2 to
  be standby, the second expects group 2 to be active, the device is CPE2: the result
  holds the failed active check only, and the message
  \<open>Failed : CPE2 No longer Standby\<close> of the first entry is not in it. The standby
  branch merges its field into the verdict stored under the key; the active branch
  assigns a fresh verdict and drops what was stored.
\<close>

theorem absent_group_standby_message_lost:
  "validate_hsrp Map.empty
     [[''Group'' \<mapsto> ''2'', ''ExpectedStandbyState'' \<mapsto> ''Standby''],
      [''Group'' \<mapsto> ''2'', ''ExpectedActiveState'' \<mapsto> ''Active'']] ''CPE2''
   = Inr [''grp2'' \<mapsto> [''Active'' \<mapsto> ''Failed : CPE2 No longer Active'']]"
  by (simp add: validate_hsrp_def validate_condition_def dict_get_def lower_eval)

subsection \<open>C7: several lines for one group\<close>

text \<open>
  Claim C7. When several lines that the parser accepts carry the same group token, the
  mapping has one entry for the group, and its state is the state of the last of these
  lines.
\<close>

theorem last_line_wins:
  assumes "splitlines output = pre @ line # post"
    and "re_match pattern line = Some gs"
    and "\<forall>l\<in>set post. \<forall>gs'. re_match pattern l = Some gs' \<longrightarrow>
           match_group gs' 2 \<noteq> match_group gs 2"
  shows "parse_show_standby_brief output (match_group gs 2) = Some (lower (match_group gs 4))"
proof -
  from assms(2) have conf: "conforming line" and gs: "gs = take 7 (tokens line)"
    by (auto simp: re_match_pattern split: if_splits)
  have g2: "match_group gs 2 = tokens line ! 1" and g4: "match_group gs 4 = tokens line ! 3"
    by (simp_all add: gs match_group_def)
  have "\<forall>l\<in>set post. \<not> (conforming l \<and> tokens l ! 1 = tokens line ! 1)"
  proof
    fix l assume l: "l \<in> set post"
    show "\<not> (conforming l \<and> tokens l ! 1 = tokens line ! 1)"
    proof
      assume c: "conforming l \<and> tokens l ! 1 = tokens line ! 1"
      then have "re_match pattern l = Some (take 7 (tokens l))" by (simp add: re_match_pattern)
      with assms(3) l have "match_group (take 7 (tokens l)) 2 \<noteq> match_group gs 2" by blast
      with c g2 show False by (simp add: match_group_def)
    qed
  qed
  from foldl_parse_line_last [OF conf this] show ?thesis
    by (simp add: parse_show_standby_brief_def assms(1) g2 g4)
qed

theorem last_line_wins_witness:
  "parse_show_standby_brief
     (''Gi0/1 1 110 Active 10.0.0.1 10.0.0.2 10.0.0.254'' @ [CHR 0x0A] @
      ''Gi0/1 1 90 Standby 10.0.0.2 10.0.0.1 10.0.0.254'' @ [CHR 0x0A] @
      ''Gi0/1 2 110 Active 10.0.1.1 10.0.1.2 10.0.1.254'') ''1'' = Some ''standby''"
proof -
  let ?l1 = "''Gi0/1 1 110 Active 10.0.0.1 10.0.0.2 10.0.0.254''"
  let ?l2 = "''Gi0/1 1 90 Standby 10.0.0.2 10.0.0.1 10.0.0.254''"
  let ?l3 = "''Gi0/1 2 110 Active 10.0.1.1 10.0.1.2 10.0.1.254''"
  let ?gs = "[''Gi0/1'', ''1'', ''90'', ''Standby'', ''10.0.0.2'', ''10.0.0.1'', ''10.0.0.254'']"
  have 1: "splitlines (?l1 @ [CHR 0x0A] @ ?l2 @ [CHR 0x0A] @ ?l3) = [?l1] @ ?l2 # [?l3]"
    by (simp add: char_eval)
  have 2: "re_match pattern ?l2 = Some ?gs"
    by (simp add: pattern_def char_eval)
  have 3: "\<forall>l\<in>set [?l3]. \<forall>gs'. re_match pattern l = Some gs' \<longrightarrow>
             match_group gs' 2 \<noteq> match_group ?gs 2"
    by (simp add: pattern_def char_eval match_group_def)
  from last_line_wins [OF 1 2 3] show ?thesis
    by (simp add: match_group_def lower_eval)
qed

subsection \<open>C8: one entry with both flags\<close>

text \<open>
  What the code does for an entry with both flags set, in a list whose entries all name
  their group: the step that handles the entry stores, from any results so far, a verdict
  with both fields under the key of the group, each computed from the one observed state
  read for the entry; the result of the whole list holds this verdict when no later entry
  of the group expects the active state only.
\<close>

lemma both_flags_fields_unless_overwritten:
  assumes "\<forall>c'\<in>set (pre @ c # post). c' ''Group'' \<noteq> None"
    and "c ''Group'' = Some g"
    and "expect_active c" and "expect_standby c"
    and "\<forall>c'\<in>set post. \<not> overwrites g c'"
  shows "(\<exists>res. validate_hsrp sd (pre @ c # post) dev = Inr res \<and>
            res (''grp'' @ g) =
              Some [''Active'' \<mapsto>
                      (if sd g = Some ''active'' then ''pass''
                       else ''Failed : '' @ dev @ '' No longer Active''),
                    ''Standby'' \<mapsto>
                      (if sd g = Some ''standby'' then ''pass''
                       else ''Failed : '' @ dev @ '' No longer Standby'')]) \<and>
         validate_condition sd dev r c =
           Inr (r(''grp'' @ g \<mapsto>
              [''Active'' \<mapsto>
                 (if sd g = Some ''active'' then ''pass''
                  else ''Failed : '' @ dev @ '' No longer Active''),
               ''Standby'' \<mapsto>
                 (if sd g = Some ''standby'' then ''pass''
                  else ''Failed : '' @ dev @ '' No longer Standby'')]))"
proof -
  have step: "validate_condition sd dev r0 c =
      Inr (r0(''grp'' @ g \<mapsto> [''Active'' \<mapsto> active_result sd dev g,
                                 ''Standby'' \<mapsto> standby_result sd dev g]))" for r0
    using assms(2-4) by (simp add: validate_condition_eq)
  from assms(1) obtain r1 r' res where
    r': "validate_condition sd dev r1 c = Inr r'" and
    post: "validate_loop sd dev r' post = Inr res" and
    res: "validate_hsrp sd (pre @ c # post) dev = Inr res"
    by (rule loop_steps)
  from r' step [of r1] have "r' (''grp'' @ g) =
      Some [''Active'' \<mapsto> active_result sd dev g, ''Standby'' \<mapsto> standby_result sd dev g]"
    by auto
  from loop_keeps_both_fields [OF post assms(5) this] res step [of r] show ?thesis
    by (simp add: active_result_def standby_result_def)
qed

text \<open>
  Claim C8. For every expectation entry with both flags set, the verdict that
  \<open>validate_hsrp\<close> produces for the group holds both the active and the standby result,
  each computed from the one observed state read for the entry, under the one key of the
  group.

  The code loses the standby result of such an entry when a later entry of the same group
  expects the active state only. Group 1 is observed as active, the first entry sets both
  flags for group 1, the second expects group 1 to be active, the device is CPE1: the
  verdict of group 1 in the result holds the passed active check only, and the standby
  result of the first entry is not in it. The standby branch merges its field into the
  verdict stored under the key; the active branch assigns a fresh verdict and drops what
  was stored.
\<close>

theorem both_flags_then_active_drops_standby:
  "validate_hsrp [''1'' \<mapsto> ''active'']
     [[''Group'' \<mapsto> ''1'', ''ExpectedActiveState'' \<mapsto> ''Active'',
       ''ExpectedStandbyState'' \<mapsto> ''Standby''],
      [''Group'' \<mapsto> ''1'', ''ExpectedActiveState'' \<mapsto> ''Active'']] ''CPE1''
   = Inr [''grp1'' \<mapsto> [''Active'' \<mapsto> ''pass'']]"
  by (simp add: validate_hsrp_def validate_condition_def dict_get_def lower_eval)

subsection \<open>C9: which inputs raise\<close>

text \<open>
  Claim C9. Neither function raises, whatever the input: empty text, text that does not
  parse, the empty expectation list, an expectation for a group that was not observed and
  an entry with both flags all give a result, and every anomaly is a failure string in
  the result.

  As stated the claim fails for the validator: the group of an entry is read with
  \<open>condition['Group']\<close>, and an entry without this key raises \<open>KeyError\<close>.
\<close>

theorem missing_group_key_raises:
  "validate_hsrp [''1'' \<mapsto> ''active'']
     [[''ExpectedActiveState'' \<mapsto> ''Active'']] ''CPE1'' = Inl (KeyError ''Group'')"
  by (simp add: validate_hsrp_def validate_condition_def)

text \<open>
  Claim C9, amended. The parser never raises: the empty text gives the empty mapping, and
  so does a text none of whose lines is accepted. The validator gives the empty result
  for the empty expectation list. For an expectation list whose entries all carry the key
  \<open>Group\<close> it returns a result, whatever the observed states and whatever the flags, and
  the anomalies are data in this result: its keys are \<open>"grp" + group\<close> for the entries
  with a flag set and no others; a verdict has no field but \<open>Active\<close> and
  \<open>Standby\<close>; the field \<open>Active\<close> of a group is there exactly when an entry of the
  group expects the active state, and is \<open>pass\<close> or the fixed failure string; the field
  \<open>Standby\<close>, when it is there, is \<open>pass\<close> or the fixed failure string, and it is
  there for an entry that expects the standby state when no later entry of the group
  expects the active state only. For an expectation list with an entry that does not
  carry the key \<open>Group\<close> the validator raises \<open>KeyError\<close> for this key.
\<close>

theorem parse_and_validate_outcomes:
  "parse_show_standby_brief [] = Map.empty \<and>
   ((\<forall>l\<in>set (splitlines output). re_match pattern l = None) \<longrightarrow>
      parse_show_standby_brief output = Map.empty) \<and>
   validate_hsrp sd [] dev = Inr Map.empty \<and>
   ((\<forall>c\<in>set conds. c ''Group'' \<noteq> None) \<longrightarrow>
    (\<exists>res. validate_hsrp sd conds dev = Inr res \<and>
       (\<forall>k. res k \<noteq> None \<longleftrightarrow>
          (\<exists>c\<in>set conds. \<exists>g. c ''Group'' = Some g \<and> k = ''grp'' @ g \<and>
             (expect_active c \<or> expect_standby c))) \<and>
       (\<forall>k v f. res k = Some v \<longrightarrow> v f \<noteq> None \<longrightarrow> f = ''Active'' \<or> f = ''Standby'') \<and>
       (\<forall>g. verdict_field res (''grp'' @ g) ''Active'' =
          (if \<exists>c\<in>set conds. c ''Group'' = Some g \<and> expect_active c
           then Some (if sd g = Some ''active'' then ''pass''
                      else ''Failed : '' @ dev @ '' No longer Active'')
           else None)) \<and>
       (\<forall>g. verdict_field res (''grp'' @ g) ''Standby'' = None \<or>
            verdict_field res (''grp'' @ g) ''Standby'' =
              Some (if sd g = Some ''standby'' then ''pass''
                    else ''Failed : '' @ dev @ '' No longer Standby'')) \<and>
       (\<forall>pre c post g. conds = pre @ c # post \<and> c ''Group'' = Some g \<and> expect_standby c \<and>
            (\<forall>c'\<in>set post. \<not> overwrites g c') \<longrightarrow>
          verdict_field res (''grp'' @ g) ''Standby'' =
            Some (if sd g = Some ''standby'' then ''pass''
                  else ''Failed : '' @ dev @ '' No longer Standby'')))) \<and>
   ((\<exists>c\<in>set conds. c ''Group'' = None) \<longrightarrow>
      validate_hsrp sd conds dev = Inl (KeyError ''Group''))"
proof -
  have p1: "parse_show_standby_brief [] = Map.empty"
    by (simp add: parse_show_standby_brief_def)
  have p2: "(\<forall>l\<in>set (splitlines output). re_match pattern l = None) \<longrightarrow>
       parse_show_standby_brief output = Map.empty"
    by (simp add: parse_show_standby_brief_def foldl_parse_line_none)
  have v0: "validate_hsrp sd [] dev = Inr Map.empty" by (simp add: validate_hsrp_def)
  have v1: "(\<forall>c\<in>set conds. c ''Group'' \<noteq> None) \<longrightarrow>
    (\<exists>res. validate_hsrp sd conds dev = Inr res \<and>
       (\<forall>k. res k \<noteq> None \<longleftrightarrow>
          (\<exists>c\<in>set conds. \<exists>g. c ''Group'' = Some g \<and> k = ''grp'' @ g \<and>
             (expect_active c \<or> expect_standby c))) \<and>
       (\<forall>k v f. res k = Some v \<longrightarrow> v f \<noteq> None \<longrightarrow> f = ''Active'' \<or> f = ''Standby'') \<and>
       (\<forall>g. verdict_field res (''grp'' @ g) ''Active'' =
          (if \<exists>c\<in>set conds. c ''Group'' = Some g \<and> expect_active c
           then Some (if sd g = Some ''active'' then ''pass''
                      else ''Failed : '' @ dev @ '' No longer Active'')
           else None)) \<and>
       (\<forall>g. verdict_field res (''grp'' @ g) ''Standby'' = None \<or>
            verdict_field res (''grp'' @ g) ''Standby'' =
              Some (if sd g = Some ''standby'' then ''pass''
                    else ''Failed : '' @ dev @ '' No longer Standby'')) \<and>
       (\<forall>pre c post g. conds = pre @ c # post \<and> c ''Group'' = Some g \<and> expect_standby c \<and>
            (\<forall>c'\<in>set post. \<not> overwrites g c') \<longrightarrow>
          verdict_field res (''grp'' @ g) ''Standby'' =
            Some (if sd g = Some ''standby'' then ''pass''
                  else ''Failed : '' @ dev @ '' No longer Standby'')))"
  proof (rule impI)
    assume grp: "\<forall>c\<in>set conds. c ''Group'' \<noteq> None"
    from loop_total [OF grp, of sd dev Map.empty] obtain res where
      res: "validate_loop sd dev Map.empty conds = Inr res" by blast
    have e: "verdict_field Map.empty k f = None" for k f by (simp add: verdict_field_def)
    have keys: "\<forall>k. res k \<noteq> None \<longleftrightarrow>
          (\<exists>c\<in>set conds. \<exists>g. c ''Group'' = Some g \<and> k = ''grp'' @ g \<and>
             (expect_active c \<or> expect_standby c))"
      using loop_keys [OF res] by simp
    have "\<forall>k v. res k = Some v \<longrightarrow> dom v \<subseteq> {''Active'', ''Standby''}"
      by (rule loop_two_fields [OF res]) simp
    then have flds:
      "\<forall>k v f. res k = Some v \<longrightarrow> v f \<noteq> None \<longrightarrow> f = ''Active'' \<or> f = ''Standby''"
      by auto
    have act: "\<forall>g. verdict_field res (''grp'' @ g) ''Active'' =
          (if \<exists>c\<in>set conds. c ''Group'' = Some g \<and> expect_active c
           then Some (if sd g = Some ''active'' then ''pass''
                      else ''Failed : '' @ dev @ '' No longer Active'')
           else None)"
      using loop_active_field [OF res] by (simp add: e active_result_def)
    have rng: "\<forall>g. verdict_field res (''grp'' @ g) ''Standby'' = None \<or>
            verdict_field res (''grp'' @ g) ''Standby'' =
              Some (if sd g = Some ''standby'' then ''pass''
                    else ''Failed : '' @ dev @ '' No longer Standby'')"
      using loop_standby_range [OF res] by (simp add: e standby_result_def)
    have kept: "\<forall>pre c post g. conds = pre @ c # post \<and> c ''Group'' = Some g \<and>
            expect_standby c \<and> (\<forall>c'\<in>set post. \<not> overwrites g c') \<longrightarrow>
          verdict_field res (''grp'' @ g) ''Standby'' =
            Some (if sd g = Some ''standby'' then ''pass''
                  else ''Failed : '' @ dev @ '' No longer Standby'')"
      using standby_kept res by (auto simp: standby_result_def)
    from res keys flds act rng kept show
      "\<exists>res. validate_hsrp sd conds dev = Inr res \<and>
       (\<forall>k. res k \<noteq> None \<longleftrightarrow>
          (\<exists>c\<in>set conds. \<exists>g. c ''Group'' = Some g \<and> k = ''grp'' @ g \<and>
             (expect_active c \<or> expect_standby c))) \<and>
       (\<forall>k v f. res k = Some v \<longrightarrow> v f \<noteq> None \<longrightarrow> f = ''Active'' \<or> f = ''Standby'') \<and>
       (\<forall>g. verdict_field res (''grp'' @ g) ''Active'' =
          (if \<exists>c\<in>set conds. c ''Group'' = Some g \<and> expect_active c
           then Some (if sd g = Some ''active'' then ''pass''
                      else ''Failed : '' @ dev @ '' No longer Active'')
           else None)) \<and>
       (\<forall>g. verdict_field res (''grp'' @ g) ''Standby'' = None \<or>
            verdict_field res (''grp'' @ g) ''Standby'' =
              Some (if sd g = Some ''standby'' then ''pass''
                    else ''Failed : '' @ dev @ '' No longer Standby'')) \<and>
       (\<forall>pre c post g. conds = pre @ c # post \<and> c ''Group'' = Some g \<and> expect_standby c \<and>
            (\<forall>c'\<in>set post. \<not> overwrites g c') \<longrightarrow>
          verdict_field res (''grp'' @ g) ''Standby'' =
            Some (if sd g = Some ''standby'' then ''pass''
                  else ''Failed : '' @ dev @ '' No longer Standby''))"
      unfolding validate_hsrp_def by (intro exI [of _ res] conjI)
  qed
  have v2: "(\<exists>c\<in>set conds. c ''Group'' = None) \<longrightarrow>
      validate_hsrp sd conds dev = Inl (KeyError ''Group'')"
    unfolding validate_hsrp_def by (rule impI) (rule loop_missing_group)
  from p1 p2 v0 v1 v2 show ?thesis by (intro conjI)
qed

theorem parse_and_validate_outcomes_witness:
  "parse_show_standby_brief (''Interface Grp Pri'' @ [CHR 0x0A] @ ''% no standby'')
     = Map.empty \<and>
   (\<exists>res. validate_hsrp Map.empty
      [[''Group'' \<mapsto> ''9'', ''ExpectedActiveState'' \<mapsto> ''Active'',
        ''ExpectedStandbyState'' \<mapsto> ''Standby'']] ''CPE1'' = Inr res \<and>
      res ''grp9'' \<noteq> None \<and> res ''grp1'' = None \<and>
      verdict_field res ''grp9'' ''Active'' = Some ''Failed : CPE1 No longer Active'' \<and>
      verdict_field res ''grp9'' ''Standby'' = Some ''Failed : CPE1 No longer Standby'') \<and>
   validate_hsrp Map.empty
      [[''Group'' \<mapsto> ''9'', ''ExpectedActiveState'' \<mapsto> ''Active''],
       [''ExpectedStandbyState'' \<mapsto> ''Standby'']] ''CPE1'' = Inl (KeyError ''Group'')"
proof -
  let ?out = "''Interface Grp Pri'' @ [CHR 0x0A] @ ''% no standby''"
  let ?c = "[''Group'' \<mapsto> ''9'', ''ExpectedActiveState'' \<mapsto> ''Active'',
        ''ExpectedStandbyState'' \<mapsto> ''Standby'']"
  let ?bad = "[[''Group'' \<mapsto> ''9'', ''ExpectedActiveState'' \<mapsto> ''Active''],
       [''ExpectedStandbyState'' \<mapsto> ''Standby'']]"
  have 1: "\<forall>l\<in>set (splitlines ?out). re_match pattern l = None"
    by (simp add: pattern_def char_eval)
  have 2: "\<forall>c\<in>set [?c]. c ''Group'' \<noteq> None" by simp
  have 3: "\<exists>c\<in>set ?bad. c ''Group'' = None" by simp
  have a: "expect_active ?c" and s: "expect_standby ?c" by (simp_all add: cond_eval)
  note T = parse_and_validate_outcomes [of ?out Map.empty "''CPE1''" "[?c]"]
  note U = parse_and_validate_outcomes [of ?out Map.empty "''CPE1''" ?bad]
  from T [THEN conjunct2, THEN conjunct1, THEN mp, OF 1]
  have p: "parse_show_standby_brief ?out = Map.empty" .
  from U [THEN conjunct2, THEN conjunct2, THEN conjunct2, THEN conjunct2, THEN mp, OF 3]
  have bad: "validate_hsrp Map.empty ?bad ''CPE1'' = Inl (KeyError ''Group'')" .
  from T [THEN conjunct2, THEN conjunct2, THEN conjunct2, THEN conjunct1, THEN mp, OF 2]
  obtain res where
    res: "validate_hsrp Map.empty [?c] ''CPE1'' = Inr res" and
    keys': "\<forall>k. res k \<noteq> None \<longleftrightarrow>
          (\<exists>c\<in>set [?c]. \<exists>g. c ''Group'' = Some g \<and> k = ''grp'' @ g \<and>
             (expect_active c \<or> expect_standby c))" and
    act': "\<forall>g. verdict_field res (''grp'' @ g) ''Active'' =
          (if \<exists>c\<in>set [?c]. c ''Group'' = Some g \<and> expect_active c
           then Some (if Map.empty g = Some ''active'' then ''pass''
                      else ''Failed : '' @ ''CPE1'' @ '' No longer Active'')
           else None)" and
    kept': "\<forall>pre c post g. [?c] = pre @ c # post \<and> c ''Group'' = Some g \<and> expect_standby c \<and>
            (\<forall>c'\<in>set post. \<not> overwrites g c') \<longrightarrow>
          verdict_field res (''grp'' @ g) ''Standby'' =
            Some (if Map.empty g = Some ''standby'' then ''pass''
                  else ''Failed : '' @ ''CPE1'' @ '' No longer Standby'')"
    by (elim exE conjE)
  note keys = keys' [rule_format] and act = act' [THEN spec]
  have kept: "verdict_field res (''grp'' @ ''9'') ''Standby'' =
            Some (if Map.empty ''9'' = Some ''standby'' then ''pass''
                  else ''Failed : '' @ ''CPE1'' @ '' No longer Standby'')"
    by (rule kept' [THEN spec, THEN spec, THEN spec, THEN spec, THEN mp,
          of "[]" ?c "[]" "''9''"]) (simp add: s)
  from keys [of "''grp9''"] a have k9: "res ''grp9'' \<noteq> None" by simp
  from keys [of "''grp1''"] have k1: "res ''grp1'' = None" by simp
  from act [of "''9''"] a have a9:
    "verdict_field res ''grp9'' ''Active'' = Some ''Failed : CPE1 No longer Active''" by simp
  from kept have s9:
    "verdict_field res ''grp9'' ''Standby'' = Some ''Failed : CPE1 No longer Standby''" by simp
  from res k9 k1 a9 s9 have
    "\<exists>res. validate_hsrp Map.empty [?c] ''CPE1'' = Inr res \<and>
      res ''grp9'' \<noteq> None \<and> res ''grp1'' = None \<and>
      verdict_field res ''grp9'' ''Active'' = Some ''Failed : CPE1 No longer Active'' \<and>
      verdict_field res ''grp9'' ''Standby'' = Some ''Failed : CPE1 No longer Standby''"
    by (intro exI [of _ res] conjI)
  with p bad show ?thesis by (intro conjI)
qed

subsection \<open>C10: the third token must be a number\<close>

text \<open>
  Claim C10. The parser asks more of a line than seven tokens: a line contributes only if
  its third whitespace-delimited token is made of decimal digits, and a line whose third
  token has a character that is not a digit is left out, also when it has exactly seven
  tokens.
\<close>

theorem priority_must_be_digits:
  "(re_match pattern line \<noteq> None \<longrightarrow>
      3 \<le> length (tokens line) \<and> tokens line ! 2 \<noteq> [] \<and>
      list_all is_digit (tokens line ! 2)) \<and>
   (\<not> list_all is_digit (tokens line ! 2) \<longrightarrow>
      re_match pattern line = None \<and> parse_line sd line = sd)"
proof -
  have "tokens line ! 2 \<noteq> []" if "conforming line"
  proof -
    from that have "tokens line ! 2 \<in> set (tokens line)" by (simp add: conforming_def)
    with tokens_nonempty [of line] show ?thesis by metis
  qed
  then show ?thesis
    by (auto simp: re_match_pattern parse_line_conforming conforming_def)
qed

theorem priority_must_be_digits_witness:
  "length (tokens ''Gi0/1 1 1x0 Active 10.0.0.1 10.0.0.2 10.0.0.254'') = 7 \<and>
   \<not> list_all is_digit (tokens ''Gi0/1 1 1x0 Active 10.0.0.1 10.0.0.2 10.0.0.254'' ! 2) \<and>
   re_match pattern ''Gi0/1 1 1x0 Active 10.0.0.1 10.0.0.2 10.0.0.254'' = None \<and>
   parse_line [''1'' \<mapsto> ''init''] ''Gi0/1 1 1x0 Active 10.0.0.1 10.0.0.2 10.0.0.254''
     = [''1'' \<mapsto> ''init''] \<and>
   re_match pattern ''Gi0/1 1 110 Active 10.0.0.1 10.0.0.2 10.0.0.254'' \<noteq> None \<and>
   list_all is_digit (tokens ''Gi0/1 1 110 Active 10.0.0.1 10.0.0.2 10.0.0.254'' ! 2)"
proof -
  let ?bad = "''Gi0/1 1 1x0 Active 10.0.0.1 10.0.0.2 10.0.0.254''"
  let ?good = "''Gi0/1 1 110 Active 10.0.0.1 10.0.0.2 10.0.0.254''"
  have nd: "\<not> list_all is_digit (tokens ?bad ! 2)" by (simp add: char_eval)
  have m: "re_match pattern ?good \<noteq> None" by (simp add: pattern_def char_eval)
  from nd m priority_must_be_digits [of ?bad "[''1'' \<mapsto> ''init'']"]
    priority_must_be_digits [of ?good Map.empty]
  show ?thesis by (simp add: char_eval)
qed

end
